theory Spec2Isabelle
  imports Complex_Main
begin

section \<open>JSON values\<close>

text \<open>
  The documents the library works on are JavaScript values.  Besides the JSON
  constructors the model has \<open>Undefined\<close> (a read of a missing property) and
  \<open>JNaN\<close>.  Numbers are reals: rounding of IEEE doubles is not modelled, and no
  result below depends on arithmetic on document numbers.  An object is its list
  of own properties in order; keys are taken to be distinct, a lookup reads the
  first entry.  Strings are lists of 8-bit characters.
\<close>

datatype jsval =
    Undefined
  | Null
  | JBool bool
  | JNum real
  | JNaN
  | JStr string
  | JArr "jsval list"
  | JObj "(string \<times> jsval) list"

text \<open>An element of \<open>currentPath\<close>: a property name or an array index.\<close>

datatype pathkey = Key string | Idx int

text \<open>
  What \<open>parseInt\<close> returns for the text of a bracket group: \<open>NaN\<close> or an
  integer (negative ones included).
\<close>

datatype index_value = NotANumber | Integer int

text \<open>
  A rule segment: \<open>{type: 'property', value}\<close>, \<open>{type: 'index', value}\<close> or
  \<open>{type: 'wildcard'}\<close>.
\<close>

datatype segment = Property string | Index index_value | Wildcard

record automaton_state =
  ruleIndex :: nat
  currentValue :: jsval
  currentPath :: "pathkey list"

text \<open>An element of the result of \<open>process\<close>: \<open>{value, path}\<close>.\<close>

record match =
  mvalue :: jsval
  mpath :: "pathkey list"

section \<open>Characters and numerals\<close>

definition is_digit :: "char \<Rightarrow> bool" where
  "is_digit c = (c \<in> set ''0123456789'')"

definition digit_val :: "char \<Rightarrow> nat" where
  "digit_val c = of_char c - 48"

definition nat_of_digits :: "string \<Rightarrow> nat" where
  "nat_of_digits ds = foldl (\<lambda>a c. 10 * a + digit_val c) 0 ds"

text \<open>
  The property names that are array indices: \<open>0\<close>, or digits with no leading
  zero.
\<close>

definition array_index :: "string \<Rightarrow> nat option" where
  "array_index k =
     (if k = ''0'' \<or> (k \<noteq> [] \<and> hd k \<noteq> CHR ''0'' \<and> list_all is_digit k)
      then Some (nat_of_digits k) else None)"

section \<open>The lodash helpers used by the automaton\<close>

text \<open>
  Modelled from the spec: lodash (\<open>_\<close>) is imported by the sources and is not
  part of the repository.  \<open>_.isArray\<close> and \<open>_.isObject\<close> recognise a
  "sequence" and an "object-like structure" (section 4.2); \<open>_.has\<close> is
  "possessing that key", an own property.  Following lodash, an array owns its
  indices and \<open>length\<close>, and a name with a dot that is not itself a key is read
  as a path of keys.  lodash's bracket syntax inside a name is not modelled: no
  name produced by \<open>parseJsonPath\<close> contains a bracket.
\<close>

definition lodash_isArray :: "jsval \<Rightarrow> bool" where
  "lodash_isArray v = (case v of JArr _ \<Rightarrow> True | _ \<Rightarrow> False)"

definition lodash_isObject :: "jsval \<Rightarrow> bool" where
  "lodash_isObject v = (case v of JArr _ \<Rightarrow> True | JObj _ \<Rightarrow> True | _ \<Rightarrow> False)"

text \<open>
  The own property \<open>k\<close> of a value, if it has one: the entries of an object,
  the elements and the \<open>length\<close> of an array, the characters and the
  \<open>length\<close> of a string.
\<close>

fun own_property :: "jsval \<Rightarrow> string \<Rightarrow> jsval option" where
  "own_property (JObj kvs) k = map_of kvs k"
| "own_property (JArr xs) k =
     (if k = ''length'' then Some (JNum (of_nat (length xs)))
      else case array_index k of
             Some i \<Rightarrow> if i < length xs then Some (xs ! i) else None
           | None \<Rightarrow> None)"
| "own_property (JStr s) k =
     (if k = ''length'' then Some (JNum (of_nat (length s)))
      else case array_index k of
             Some i \<Rightarrow> if i < length s then Some (JStr [s ! i]) else None
           | None \<Rightarrow> None)"
| "own_property _ k = None"

text \<open>
  A dotted name as a path of keys, and the test that each key of a path is an
  own property of the value reached so far.
\<close>

fun split_dots :: "string \<Rightarrow> string list" where
  "split_dots [] = [[]]"
| "split_dots (c # cs) =
     (if c = CHR ''.'' then [] # split_dots cs
      else case split_dots cs of
             w # ws \<Rightarrow> (c # w) # ws
           | [] \<Rightarrow> [[c]])"

fun has_path :: "jsval \<Rightarrow> string list \<Rightarrow> bool" where
  "has_path obj [] = False"
| "has_path obj [k] = (own_property obj k \<noteq> None)"
| "has_path obj (k # ks) =
     (case own_property obj k of None \<Rightarrow> False | Some v \<Rightarrow> has_path v ks)"

definition lodash_has :: "jsval \<Rightarrow> string \<Rightarrow> bool" where
  "lodash_has obj p =
     has_path obj
       (if CHR ''.'' \<notin> set p \<or> own_property obj p \<noteq> None then [p] else split_dots p)"

text \<open>
  The read \<open>obj[p]\<close> of a name that is an own property or is found nowhere:
  the property's value or \<open>undefined\<close>.  It is used after \<open>_.has\<close>, and
  for the fields \<open>source\<close>, \<open>target\<close> and \<open>pathMappings\<close>, which no
  prototype defines.
\<close>

definition get_property :: "jsval \<Rightarrow> string \<Rightarrow> jsval" where
  "get_property obj p = (case own_property obj p of Some v \<Rightarrow> v | None \<Rightarrow> Undefined)"

section \<open>The path parser\<close>

text \<open>
  Modelled from the spec: the JavaScript built-ins \<open>isNaN\<close> and \<open>parseInt\<close>
  decide what a bracket group other than \<open>[*]\<close> becomes ("a bracket group
  containing only digits becomes an Index segment", other content being
  implementation-defined).  They follow ECMAScript on 8-bit strings: \<open>isNaN\<close>
  of a string is false exactly for the numeric literals (blank, decimal with
  optional sign, fraction and exponent, \<open>Infinity\<close>, and unsigned binary, octal
  and hexadecimal), and \<open>parseInt\<close> reads an optional sign, an optional
  \<open>0x\<close> and the longest run of digits.  Integers are exact here, also beyond
  \<open>2^53\<close>.
\<close>

definition is_white_space :: "char \<Rightarrow> bool" where
  "is_white_space c = (c \<in> set [CHR 0x09, CHR 0x0A, CHR 0x0B, CHR 0x0C, CHR 0x0D, CHR 0x20, CHR 0xA0])"

definition is_hex_digit :: "char \<Rightarrow> bool" where
  "is_hex_digit c = (c \<in> set ''0123456789abcdefABCDEF'')"

definition hex_val :: "char \<Rightarrow> nat" where
  "hex_val c =
     (if is_digit c then of_char c - 48
      else if c \<in> set ''abcdef'' then of_char c - 87
      else of_char c - 55)"

definition strip_sign :: "string \<Rightarrow> string" where
  "strip_sign s =
     (case s of
        c # r \<Rightarrow> if c = CHR ''+'' \<or> c = CHR ''-'' then r else s
      | [] \<Rightarrow> s)"

definition exponent_part_opt :: "string \<Rightarrow> bool" where
  "exponent_part_opt s =
     (case s of
        [] \<Rightarrow> True
      | c # t \<Rightarrow> (c = CHR ''e'' \<or> c = CHR ''E'')
                 \<and> strip_sign t \<noteq> [] \<and> list_all is_digit (strip_sign t))"

definition str_unsigned_decimal :: "string \<Rightarrow> bool" where
  "str_unsigned_decimal s =
     (s = ''Infinity'' \<or>
      (let ip = takeWhile is_digit s; rest = dropWhile is_digit s
       in case rest of
            [] \<Rightarrow> ip \<noteq> []
          | c # r \<Rightarrow>
              if c = CHR ''.''
              then (ip \<noteq> [] \<or> takeWhile is_digit r \<noteq> [])
                   \<and> exponent_part_opt (dropWhile is_digit r)
              else ip \<noteq> [] \<and> exponent_part_opt rest))"

definition str_non_decimal :: "string \<Rightarrow> bool" where
  "str_non_decimal s =
     (case s of
        z # x # ds \<Rightarrow>
          z = CHR ''0'' \<and> ds \<noteq> [] \<and>
          ((x \<in> set ''bB'' \<and> list_all (\<lambda>c. c \<in> set ''01'') ds) \<or>
           (x \<in> set ''oO'' \<and> list_all (\<lambda>c. c \<in> set ''01234567'') ds) \<or>
           (x \<in> set ''xX'' \<and> list_all is_hex_digit ds))
      | _ \<Rightarrow> False)"

definition js_isNaN :: "string \<Rightarrow> bool" where
  "js_isNaN s =
     (let t = rev (dropWhile is_white_space (rev (dropWhile is_white_space s)))
      in \<not> (t = [] \<or> str_non_decimal t \<or> str_unsigned_decimal (strip_sign t)))"

definition js_parseInt :: "string \<Rightarrow> index_value" where
  "js_parseInt s =
     (let t = dropWhile is_white_space s;
          negative = (case t of c # _ \<Rightarrow> c = CHR ''-'' | [] \<Rightarrow> False);
          u = strip_sign t;
          hex = (case u of z # x # _ \<Rightarrow> z = CHR ''0'' \<and> x \<in> set ''xX'' | _ \<Rightarrow> False);
          z = (if hex then takeWhile is_hex_digit (drop 2 u) else takeWhile is_digit u);
          n = (if hex then foldl (\<lambda>a c. 16 * a + hex_val c) 0 z else nat_of_digits z)
      in if z = [] then NotANumber
         else Integer (if negative then - int n else int n))"

text \<open>
  \<open>parseJsonPath\<close>.  \<open>cleanPath\<close> is the path without a leading \<open>$\<close> or
  \<open>$.\<close>; the \<open>for\<close> loop threads \<open>segments\<close>, \<open>current\<close> and
  \<open>inBracket\<close> through the characters; what is left in \<open>current\<close> at the end
  is pushed as a property.  In the \<open>]\<close> branch a group that is neither \<open>*\<close>
  nor a number pushes nothing.
\<close>

record parser_state =
  segments :: "segment list"
  current :: string
  inBracket :: bool

definition strip_root :: "string \<Rightarrow> string" where
  "strip_root jsonPath =
     (case jsonPath of
        c # r \<Rightarrow>
          if c = CHR ''$''
          then (case r of d # r' \<Rightarrow> if d = CHR ''.'' then r' else r | [] \<Rightarrow> r)
          else jsonPath
      | [] \<Rightarrow> jsonPath)"

definition push_current :: "parser_state \<Rightarrow> segment list" where
  "push_current st =
     (if current st \<noteq> [] then segments st @ [Property (current st)] else segments st)"

definition parse_char :: "char \<Rightarrow> parser_state \<Rightarrow> parser_state" where
  "parse_char char st =
     (if char = CHR ''['' then
        \<lparr>segments = push_current st, current = [], inBracket = True\<rparr>
      else if char = CHR '']'' then
        \<lparr>segments =
           (if current st = ''*'' then segments st @ [Wildcard]
            else if \<not> js_isNaN (current st)
                 then segments st @ [Index (js_parseInt (current st))]
                 else segments st),
         current = [], inBracket = False\<rparr>
      else if char = CHR ''.'' \<and> \<not> inBracket st then
        \<lparr>segments = push_current st, current = [], inBracket = inBracket st\<rparr>
      else st\<lparr>current := current st @ [char]\<rparr>)"

definition parseJsonPath :: "string \<Rightarrow> segment list" where
  "parseJsonPath jsonPath =
     push_current (fold parse_char (strip_root jsonPath)
                     \<lparr>segments = [], current = [], inBracket = False\<rparr>)"

section \<open>The tree automaton\<close>

text \<open>
  \<open>isAcceptingState\<close>: \<open>state.ruleIndex >= this.rule.length\<close>.  The rule is
  the automaton's field \<open>this.rule\<close>, passed as an argument here.
\<close>

definition isAcceptingState :: "segment list \<Rightarrow> automaton_state \<Rightarrow> bool" where
  "isAcceptingState rule state = (length rule \<le> ruleIndex state)"

definition handlePropertyTransition :: "automaton_state \<Rightarrow> string \<Rightarrow> automaton_state list" where
  "handlePropertyTransition state property =
     (if lodash_isObject (currentValue state) \<and> lodash_has (currentValue state) property
      then [state\<lparr>ruleIndex := ruleIndex state + 1,
                  currentValue := get_property (currentValue state) property,
                  currentPath := currentPath state @ [Key property]\<rparr>]
      else [])"

definition handleWildcardTransition :: "automaton_state \<Rightarrow> automaton_state list" where
  "handleWildcardTransition state =
     (case currentValue state of
        JArr items \<Rightarrow>
          map (\<lambda>(index, item).
                 state\<lparr>ruleIndex := ruleIndex state + 1,
                       currentValue := item,
                       currentPath := currentPath state @ [Idx (int index)]\<rparr>)
              (enumerate 0 items)
      | _ \<Rightarrow> [])"

text \<open>
  \<open>index < state.currentValue.length\<close> is false for \<open>NaN\<close> and true for a
  negative index, for which \<open>currentValue[index]\<close> reads \<open>undefined\<close>.
\<close>

definition handleIndexTransition :: "automaton_state \<Rightarrow> index_value \<Rightarrow> automaton_state list" where
  "handleIndexTransition state index =
     (case (currentValue state, index) of
        (JArr items, Integer n) \<Rightarrow>
          if n < int (length items)
          then [state\<lparr>ruleIndex := ruleIndex state + 1,
                      currentValue := (if 0 \<le> n then items ! nat n else Undefined),
                      currentPath := currentPath state @ [Idx n]\<rparr>]
          else []
      | _ \<Rightarrow> [])"

text \<open>
  \<open>transition\<close>.  The source passes \<open>jsonData\<close> along to the handlers, none
  of which reads it; the argument is left out.
\<close>

definition transition :: "segment list \<Rightarrow> automaton_state \<Rightarrow> automaton_state list" where
  "transition rule state =
     (if isAcceptingState rule state then [state]
      else case rule ! ruleIndex state of
             Property p \<Rightarrow> handlePropertyTransition state p
           | Wildcard \<Rightarrow> handleWildcardTransition state
           | Index n \<Rightarrow> handleIndexTransition state n)"

definition to_match :: "automaton_state \<Rightarrow> match" where
  "to_match state = \<lparr>mvalue = currentValue state, mpath = currentPath state\<rparr>"

definition remaining :: "segment list \<Rightarrow> automaton_state \<Rightarrow> nat" where
  "remaining rule state = length rule - ruleIndex state"

definition frontier_measure :: "segment list \<Rightarrow> automaton_state list \<Rightarrow> nat" where
  "frontier_measure rule states =
     (if states = [] then 0 else Suc (Max (set (map (remaining rule) states))))"

lemma transition_advances:
  assumes "s' \<in> set (transition rule s)" and "\<not> isAcceptingState rule s"
  shows "ruleIndex s' = Suc (ruleIndex s)"
  using assms
  by (auto simp: transition_def handlePropertyTransition_def handleWildcardTransition_def
      handleIndexTransition_def split: segment.splits jsval.splits index_value.splits if_splits)

lemma transition_accepting: "isAcceptingState rule s \<Longrightarrow> transition rule s = [s]"
  by (simp add: transition_def)

lemma frontier_measure_decreases:
  assumes ne: "currentStates \<noteq> []"
    and none: "filter (isAcceptingState rule) (concat (map (transition rule) currentStates)) = []"
  shows "frontier_measure rule
           (filter (\<lambda>s. \<not> isAcceptingState rule s) (concat (map (transition rule) currentStates)))
         < frontier_measure rule currentStates"
proof -
  let ?next = "concat (map (transition rule) currentStates)"
  let ?cont = "filter (\<lambda>s. \<not> isAcceptingState rule s) ?next"
  have noacc: "\<not> isAcceptingState rule t" if "t \<in> set ?next" for t
    using none that by (auto simp: filter_empty_conv)
  have step: "remaining rule t < Max (set (map (remaining rule) currentStates))"
    if t: "t \<in> set ?cont" for t
  proof -
    from t have tn: "t \<in> set ?next" by simp
    then obtain s where s: "s \<in> set currentStates" and ts: "t \<in> set (transition rule s)"
      by auto
    have sna: "\<not> isAcceptingState rule s"
    proof
      assume acc: "isAcceptingState rule s"
      with ts have "t = s" by (simp add: transition_accepting)
      with acc noacc [OF tn] show False by simp
    qed
    have "ruleIndex t = Suc (ruleIndex s)" using transition_advances [OF ts sna] .
    moreover have "ruleIndex s < length rule" using sna by (simp add: isAcceptingState_def)
    ultimately have "remaining rule t < remaining rule s" by (simp add: remaining_def)
    moreover have "remaining rule s \<le> Max (set (map (remaining rule) currentStates))"
      using s by (intro Max_ge) auto
    ultimately show ?thesis by simp
  qed
  show ?thesis
  proof (cases "?cont = []")
    case True
    with ne show ?thesis by (simp add: frontier_measure_def)
  next
    case False
    define A where "A = set (map (remaining rule) ?cont)"
    have "finite A" by (simp add: A_def)
    moreover have "A \<noteq> {}" unfolding A_def set_empty map_is_Nil_conv by (rule False)
    moreover have "\<forall>a\<in>A. a < Max (set (map (remaining rule) currentStates))"
      using step by (auto simp: A_def)
    ultimately have "Max A < Max (set (map (remaining rule) currentStates))"
      by simp
    then show ?thesis using ne False by (simp add: frontier_measure_def A_def)
  qed
qed

text \<open>
  \<open>process\<close>: the \<open>while\<close> loop over \<open>currentStates\<close>.  The first component
  of the result counts the executions of the loop body (the processing rounds),
  the second is the value returned.
\<close>

function process_loop :: "segment list \<Rightarrow> automaton_state list \<Rightarrow> nat \<times> match list" where
  "process_loop rule currentStates =
     (if currentStates = [] then (0, [])
      else
        let nextStates = concat (map (transition rule) currentStates);
            acceptingStates = filter (isAcceptingState rule) nextStates;
            continuingStates = filter (\<lambda>state. \<not> isAcceptingState rule state) nextStates
        in if acceptingStates \<noteq> [] then (1, map to_match acceptingStates)
           else case process_loop rule continuingStates of
                  (rounds, result) \<Rightarrow> (Suc rounds, result))"
  by pat_completeness auto
termination
  by (relation "measure (\<lambda>(rule, states). frontier_measure rule states)")
     (auto intro: frontier_measure_decreases)

declare process_loop.simps [simp del]

definition initial_state :: "jsval \<Rightarrow> automaton_state" where
  "initial_state jsonData = \<lparr>ruleIndex = 0, currentValue = jsonData, currentPath = []\<rparr>"

definition process :: "jsval \<Rightarrow> segment list \<Rightarrow> match list" where
  "process jsonData rule = snd (process_loop rule [initial_state jsonData])"

definition process_rounds :: "jsval \<Rightarrow> segment list \<Rightarrow> nat" where
  "process_rounds jsonData rule = fst (process_loop rule [initial_state jsonData])"


text \<open>
  One round of the loop of \<open>process\<close> computes \<open>nextStates\<close> from
  \<open>currentStates\<close>.  \<open>level rule jsonData n\<close> is the \<open>n\<close>-th level of
  the breadth-first exploration in which no state is ever dropped: level 0 is the
  initial state, each further level the successors of the one before.
\<close>

definition step_states :: "segment list \<Rightarrow> automaton_state list \<Rightarrow> automaton_state list" where
  "step_states rule states = concat (map (transition rule) states)"

fun level :: "segment list \<Rightarrow> jsval \<Rightarrow> nat \<Rightarrow> automaton_state list" where
  "level rule jsonData 0 = [initial_state jsonData]"
| "level rule jsonData (Suc n) = step_states rule (level rule jsonData n)"

definition has_accepting :: "segment list \<Rightarrow> automaton_state list \<Rightarrow> bool" where
  "has_accepting rule states = (filter (isAcceptingState rule) states \<noteq> [])"

text \<open>
  The \<open>switch\<close> of \<open>transition\<close> on its own, and the successive application of
  a list of segments to a list of states; both are used in the proofs only.
\<close>

definition dispatch :: "segment \<Rightarrow> automaton_state \<Rightarrow> automaton_state list" where
  "dispatch seg state =
     (case seg of
        Property p \<Rightarrow> handlePropertyTransition state p
      | Wildcard \<Rightarrow> handleWildcardTransition state
      | Index n \<Rightarrow> handleIndexTransition state n)"

definition run :: "segment list \<Rightarrow> automaton_state list \<Rightarrow> automaton_state list" where
  "run segs states = fold (\<lambda>seg sts. concat (map (dispatch seg) sts)) segs states"

definition rebase :: "nat \<Rightarrow> pathkey list \<Rightarrow> automaton_state \<Rightarrow> automaton_state" where
  "rebase i p state =
     state\<lparr>ruleIndex := i + ruleIndex state, currentPath := p @ currentPath state\<rparr>"

definition prepend :: "pathkey list \<Rightarrow> match \<Rightarrow> match" where
  "prepend p m = m\<lparr>mpath := p @ mpath m\<rparr>"

text \<open>
  The location a chain of property and index segments leads to: one key per
  segment.
\<close>

definition segment_keys :: "segment list \<Rightarrow> pathkey list" where
  "segment_keys segs =
     concat (map (\<lambda>seg. case seg of
                           Property p \<Rightarrow> [Key p]
                         | Index (Integer n) \<Rightarrow> [Idx n]
                         | _ \<Rightarrow> []) segs)"

section \<open>The transformer\<close>

text \<open>
  What a call can throw: \<open>Error message\<close> is \<open>new Error(message)\<close>, thrown by
  the sources; \<open>TypeError\<close> is raised by the JavaScript runtime (a property read
  on \<open>undefined\<close> or \<open>null\<close>, a call of something that is not a function, a
  built-in that rejects its argument, an object that cannot be turned into a
  primitive value).
\<close>

datatype error = Error string | TypeError

text \<open>
  What \<open>extractValues\<close> returns and \<open>_.set\<close> is given: a value of the
  documents (\<open>Data\<close>), or an object of the runtime that is no such value
  (\<open>RuntimeObject\<close>: the table \<open>aggregateOps\<close> itself, an accessor function of
  \<open>Object.prototype\<close>), which only a call of an inherited member returns.  A
  runtime object is not an array.
\<close>

datatype extracted = Data jsval | RuntimeObject string

subsection \<open>Aggregate operations\<close>

definition numbers :: "jsval list \<Rightarrow> real list option" where
  "numbers values =
     (if list_all (\<lambda>v. case v of JNum _ \<Rightarrow> True | _ \<Rightarrow> False) values
      then Some (map (\<lambda>v. case v of JNum x \<Rightarrow> x | _ \<Rightarrow> 0) values)
      else None)"

definition is_primitive :: "jsval \<Rightarrow> bool" where
  "is_primitive v = (case v of JArr _ \<Rightarrow> False | JObj _ \<Rightarrow> False | _ \<Rightarrow> True)"

text \<open>
  Modelled from the spec: the reducers are lodash functions (section 4.3).
  \<open>sum\<close> of the empty list is 0, \<open>max\<close>, \<open>min\<close>, \<open>first\<close> and \<open>last\<close> of
  the empty list are \<open>undefined\<close>, \<open>avg\<close> of the empty list is \<open>NaN\<close>,
  \<open>unique\<close> keeps the first occurrence of each value, \<open>sort\<close> is ascending,
  \<open>reverse\<close> reverses.  The arithmetic and ordering reducers are modelled
  on lists of numbers, and \<open>unique\<close> on lists of primitive values, where
  none of them throws; \<open>count\<close>, \<open>first\<close>, \<open>last\<close> and \<open>reverse\<close> are
  modelled on every list, and never throw.  On any other list what a
  reducer does depends on JavaScript's coercions and on object identity, which
  are no part of the repository: there it is \<open>coerce name values\<close>, the value
  returned or \<open>None\<close> for a \<open>TypeError\<close> thrown by a coercion (of an
  object that has a property \<open>toString\<close> of its own, say).  \<open>coerce\<close> is a
  parameter of the model and the results below hold for every \<open>coerce\<close>.
\<close>

definition coerced ::
  "(string \<Rightarrow> jsval list \<Rightarrow> jsval option) \<Rightarrow> string \<Rightarrow> jsval list \<Rightarrow> error + jsval" where
  "coerced coerce name values =
     (case coerce name values of None \<Rightarrow> Inl TypeError | Some v \<Rightarrow> Inr v)"

definition lodash_max :: "(string \<Rightarrow> jsval list \<Rightarrow> jsval option) \<Rightarrow> jsval list \<Rightarrow> error + jsval" where
  "lodash_max coerce values =
     (if values = [] then Inr Undefined
      else case numbers values of
             Some ns \<Rightarrow> Inr (JNum (Max (set ns)))
           | None \<Rightarrow> coerced coerce ''max'' values)"

definition lodash_min :: "(string \<Rightarrow> jsval list \<Rightarrow> jsval option) \<Rightarrow> jsval list \<Rightarrow> error + jsval" where
  "lodash_min coerce values =
     (if values = [] then Inr Undefined
      else case numbers values of
             Some ns \<Rightarrow> Inr (JNum (Min (set ns)))
           | None \<Rightarrow> coerced coerce ''min'' values)"

definition lodash_sum :: "(string \<Rightarrow> jsval list \<Rightarrow> jsval option) \<Rightarrow> jsval list \<Rightarrow> error + jsval" where
  "lodash_sum coerce values =
     (if values = [] then Inr (JNum 0)
      else case numbers values of
             Some ns \<Rightarrow> Inr (JNum (sum_list ns))
           | None \<Rightarrow> coerced coerce ''sum'' values)"

definition lodash_mean :: "(string \<Rightarrow> jsval list \<Rightarrow> jsval option) \<Rightarrow> jsval list \<Rightarrow> error + jsval" where
  "lodash_mean coerce values =
     (if values = [] then Inr JNaN
      else case numbers values of
             Some ns \<Rightarrow> Inr (JNum (sum_list ns / of_nat (length ns)))
           | None \<Rightarrow> coerced coerce ''avg'' values)"

definition lodash_first :: "jsval list \<Rightarrow> error + jsval" where
  "lodash_first values = (case values of [] \<Rightarrow> Inr Undefined | v # _ \<Rightarrow> Inr v)"

definition lodash_last :: "jsval list \<Rightarrow> error + jsval" where
  "lodash_last values = (if values = [] then Inr Undefined else Inr (last values))"

definition lodash_uniq :: "(string \<Rightarrow> jsval list \<Rightarrow> jsval option) \<Rightarrow> jsval list \<Rightarrow> error + jsval" where
  "lodash_uniq coerce values =
     (if list_all is_primitive values then Inr (JArr (rev (remdups (rev values))))
      else coerced coerce ''unique'' values)"

definition lodash_sortBy :: "(string \<Rightarrow> jsval list \<Rightarrow> jsval option) \<Rightarrow> jsval list \<Rightarrow> error + jsval" where
  "lodash_sortBy coerce values =
     (case numbers values of
        Some ns \<Rightarrow> Inr (JArr (map JNum (sort ns)))
      | None \<Rightarrow> coerced coerce ''sort'' values)"

text \<open>The table \<open>aggregateOps\<close>, by own key.\<close>

definition aggregateOps ::
  "(string \<Rightarrow> jsval list \<Rightarrow> jsval option) \<Rightarrow> string \<Rightarrow> (jsval list \<Rightarrow> error + jsval) option" where
  "aggregateOps coerce name =
     map_of
       [(''max'', lodash_max coerce),
        (''min'', lodash_min coerce),
        (''sum'', lodash_sum coerce),
        (''avg'', lodash_mean coerce),
        (''count'', \<lambda>values. Inr (JNum (of_nat (length values)))),
        (''first'', lodash_first),
        (''last'', lodash_last),
        (''unique'', lodash_uniq coerce),
        (''sort'', lodash_sortBy coerce),
        (''reverse'', \<lambda>values. Inr (JArr (rev values)))]
       name"

definition aggregate_names :: "string list" where
  "aggregate_names =
     [''max'', ''min'', ''sum'', ''avg'', ''count'', ''first'', ''last'', ''unique'', ''sort'',
      ''reverse'']"


text \<open>
  \<open>aggregateOps\<close> is a plain object, so \<open>aggregateOps[operation]\<close> also finds
  the members it inherits from \<open>Object.prototype\<close>, and
  \<open>aggregateOps[operation](values)\<close> calls them with \<open>aggregateOps\<close> as
  \<open>this\<close> and the list of matched values as the argument.

  Four of them turn the argument into a property key first: the text of the
  list, which is the texts of its elements joined by commas.  An object that
  has a property \<open>toString\<close> of its own has no text (the property is no
  function, and \<open>valueOf\<close> returns no primitive value either): the
  conversion throws a \<open>TypeError\<close>.  Any other object has the text
  \<open>[object Object]\<close>, an array the text of its list, \<open>undefined\<close> and
  \<open>null\<close> the empty text.
\<close>

fun has_text :: "jsval \<Rightarrow> bool" where
  "has_text (JObj props) = (''toString'' \<notin> fst ` set props)"
| "has_text (JArr items) = (\<forall>item \<in> set items. has_text item)"
| "has_text v = True"

text \<open>
  \<open>key_is w values\<close> says that the text of the list \<open>values\<close> is \<open>w\<close>,
  for the names \<open>w\<close> used below (the ten own keys of the table and
  \<open>__proto__\<close>, which have no comma and none of which is the text of a number,
  of a boolean or of an object): that is so exactly when the list holds one
  element that is the string \<open>w\<close>, or again such a list.
\<close>

fun key_is :: "string \<Rightarrow> jsval list \<Rightarrow> bool" where
  "key_is w [JStr s] = (s = w)"
| "key_is w [JArr values] = key_is w values"
| "key_is w _ = False"

text \<open>
  \<^item> \<open>constructor\<close> is \<open>Object\<close>, which returns its argument, an array;
  \<^item> \<open>toString\<close> and \<open>toLocaleString\<close> return \<open>[object Object]\<close>;
  \<^item> \<open>valueOf\<close> returns \<open>aggregateOps\<close> itself;
  \<^item> \<open>hasOwnProperty\<close> and \<open>propertyIsEnumerable\<close> say whether the key is
    one of the ten own keys of the table;
  \<^item> \<open>isPrototypeOf\<close> returns \<open>false\<close>;
  \<^item> \<open>__lookupGetter__\<close> and \<open>__lookupSetter__\<close> return the accessor
    function of \<open>Object.prototype.__proto__\<close> for the key \<open>__proto__\<close> and
    \<open>undefined\<close> for any other key;
  \<^item> \<open>__defineGetter__\<close> and \<open>__defineSetter__\<close> throw a \<open>TypeError\<close>,
    their second argument being no function;
  \<^item> \<open>__proto__\<close> is \<open>Object.prototype\<close>, which is not a function: the call
    is a \<open>TypeError\<close>.
\<close>

definition own_key :: "jsval list \<Rightarrow> error + extracted" where
  "own_key values =
     (if list_all has_text values
      then Inr (Data (JBool (list_ex (\<lambda>w. key_is w values) aggregate_names)))
      else Inl TypeError)"

definition lookup_accessor :: "string \<Rightarrow> jsval list \<Rightarrow> error + extracted" where
  "lookup_accessor accessor values =
     (if list_all has_text values
      then Inr (if key_is ''__proto__'' values then RuntimeObject accessor else Data Undefined)
      else Inl TypeError)"

definition inherited_member :: "string \<Rightarrow> (jsval list \<Rightarrow> error + extracted) option" where
  "inherited_member name =
     map_of
       [(''constructor'', \<lambda>values. Inr (Data (JArr values))),
        (''toString'', \<lambda>values. Inr (Data (JStr ''[object Object]''))),
        (''toLocaleString'', \<lambda>values. Inr (Data (JStr ''[object Object]''))),
        (''valueOf'', \<lambda>values. Inr (RuntimeObject ''aggregateOps'')),
        (''hasOwnProperty'', own_key),
        (''propertyIsEnumerable'', own_key),
        (''isPrototypeOf'', \<lambda>values. Inr (Data (JBool False))),
        (''__lookupGetter__'', lookup_accessor ''get __proto__''),
        (''__lookupSetter__'', lookup_accessor ''set __proto__''),
        (''__defineGetter__'', \<lambda>values. Inl TypeError),
        (''__defineSetter__'', \<lambda>values. Inl TypeError),
        (''__proto__'', \<lambda>values. Inl TypeError)]
       name"

text \<open>
  \<open>aggregateOps[operation]\<close>, own or inherited, as the function that
  \<open>aggregateOps[operation](values)\<close> calls.
\<close>

definition aggregate_member ::
  "(string \<Rightarrow> jsval list \<Rightarrow> jsval option) \<Rightarrow> string \<Rightarrow> (jsval list \<Rightarrow> error + extracted) option" where
  "aggregate_member coerce name =
     (case aggregateOps coerce name of
        Some reducer \<Rightarrow>
          Some (\<lambda>values. case reducer values of Inl e \<Rightarrow> Inl e | Inr v \<Rightarrow> Inr (Data v))
      | None \<Rightarrow> inherited_member name)"


subsection \<open>Strings\<close>

definition is_word_char :: "char \<Rightarrow> bool" where
  "is_word_char c =
     (c \<in> set ''abcdefghijklmnopqrstuvwxyzABCDEFGHIJKLMNOPQRSTUVWXYZ0123456789_'')"

fun is_prefix :: "string \<Rightarrow> string \<Rightarrow> bool" where
  "is_prefix [] s = True"
| "is_prefix (p # ps) [] = False"
| "is_prefix (p # ps) (c # cs) = (p = c \<and> is_prefix ps cs)"

text \<open>
  The first position of \<open>pat\<close> in a string, if any; \<open>s.indexOf(pat)\<close> is
  that position, or \<open>-1\<close>.  \<open>s.substring(0, i)\<close> is \<open>take (nat i) s\<close>.
\<close>

fun index_of :: "string \<Rightarrow> string \<Rightarrow> nat option" where
  "index_of pat [] = (if pat = [] then Some 0 else None)"
| "index_of pat (c # cs) =
     (if is_prefix pat (c # cs) then Some 0 else map_option Suc (index_of pat cs))"

definition js_indexOf :: "string \<Rightarrow> string \<Rightarrow> int" where
  "js_indexOf pat s = (case index_of pat s of None \<Rightarrow> - 1 | Some i \<Rightarrow> int i)"

text \<open>\<open>s.replace(pat, rep)\<close> for a string pattern: the first occurrence only.\<close>

definition replace_first :: "string \<Rightarrow> string \<Rightarrow> string \<Rightarrow> string" where
  "replace_first pat rep s =
     (case index_of pat s of
        None \<Rightarrow> s
      | Some i \<Rightarrow> take i s @ rep @ drop (i + length pat) s)"

text \<open>The decimal text of an array index, as a template literal prints it.\<close>

definition digit_char :: "nat \<Rightarrow> char" where
  "digit_char d = ''0123456789'' ! d"

fun show_nat :: "nat \<Rightarrow> string" where
  "show_nat n =
     (if n < 10 then [digit_char n]
      else show_nat (n div 10) @ [digit_char (n mod 10)])"

declare show_nat.simps [simp del]

subsection \<open>parsePathWithOperation\<close>

text \<open>
  The regular expression \<open>/\.(\w+)\(\)$/\<close> matches when the path ends in a dot,
  a non-empty run of word characters and \<open>()\<close>; the run is the operation and
  the match is removed from the path.
\<close>

definition parsePathWithOperation :: "string \<Rightarrow> string \<times> string option" where
  "parsePathWithOperation jsonPath =
     (case rev jsonPath of
        c1 # c2 # r \<Rightarrow>
          if c1 = CHR '')'' \<and> c2 = CHR ''(''
          then (let operation = rev (takeWhile is_word_char r);
                    before = dropWhile is_word_char r
                in case before of
                     d # cleanPath \<Rightarrow>
                       if d = CHR ''.'' \<and> operation \<noteq> []
                       then (rev cleanPath, Some operation)
                       else (jsonPath, None)
                   | [] \<Rightarrow> (jsonPath, None))
          else (jsonPath, None)
      | _ \<Rightarrow> (jsonPath, None))"

subsection \<open>extractValues\<close>

text \<open>
  \<open>jsonPath\<close> is whatever the rule holds under \<open>source\<close>; \<open>jsonPath.match\<close>
  is a \<open>TypeError\<close> unless it is a string.  An operation that names no member
  of the table is ignored.
\<close>

definition extractValues ::
  "(string \<Rightarrow> jsval list \<Rightarrow> jsval option) \<Rightarrow> jsval \<Rightarrow> jsval \<Rightarrow> error + extracted" where
  "extractValues coerce jsonData jsonPath =
     (case jsonPath of
        JStr text \<Rightarrow>
          (case parsePathWithOperation text of
             (path, operation) \<Rightarrow>
               let results = process jsonData (parseJsonPath path);
                   values = map mvalue results;
                   plain = Inr (Data (if length values = 1 then hd values else JArr values))
               in case operation of
                    None \<Rightarrow> plain
                  | Some name \<Rightarrow>
                      (case aggregate_member coerce name of
                         Some member \<Rightarrow> member values
                       | None \<Rightarrow> plain))
      | _ \<Rightarrow> Inl TypeError)"

subsection \<open>setValueAtPath\<close>

lemma dropWhile_shorter: "length (dropWhile P cs) - Suc 0 < Suc (length cs)"
  using length_dropWhile_le [of P cs] by simp

text \<open>
  \<open>s.replace(/\[(C+)\]/g, '.$1')\<close> for a character class \<open>C\<close> without
  \<open>]\<close>: every bracket group whose content is a non-empty run of \<open>C\<close> becomes
  a dot and the content.
\<close>

function bracket_to_dot :: "(char \<Rightarrow> bool) \<Rightarrow> string \<Rightarrow> string" where
  "bracket_to_dot C [] = []"
| "bracket_to_dot C (c # cs) =
     (if c = CHR ''['' \<and> takeWhile C cs \<noteq> [] \<and> is_prefix '']'' (dropWhile C cs)
      then CHR ''.'' # takeWhile C cs @ bracket_to_dot C (tl (dropWhile C cs))
      else c # bracket_to_dot C cs)"
  by pat_completeness auto
termination
  by (relation "measure (\<lambda>(C, s). length s)") (auto simp: dropWhile_shorter)

text \<open>
  The three replacements of \<open>setValueAtPath\<close>: the leading \<open>$\<close>, \<open>[0]\<close> to
  \<open>.0\<close>, \<open>[key]\<close> to \<open>.key\<close>.
\<close>

definition lodash_path :: "string \<Rightarrow> string" where
  "lodash_path targetPath =
     bracket_to_dot (\<lambda>c. c \<noteq> CHR '']'') (bracket_to_dot is_digit (strip_root targetPath))"

text \<open>
  lodash's \<open>_.set\<close> and \<open>_.cloneDeep\<close> are not part of the repository: the
  write \<open>_.set(_.cloneDeep(target), lodashPath, value)\<close> is the parameter
  \<open>lset\<close>, for any type of accumulator.  \<open>targetPath.replace\<close> is a
  \<open>TypeError\<close> unless \<open>targetPath\<close> is a string.
\<close>

definition setValueAtPath ::
  "('a \<Rightarrow> string \<Rightarrow> extracted \<Rightarrow> 'a) \<Rightarrow> 'a \<Rightarrow> jsval \<Rightarrow> extracted \<Rightarrow> error + 'a" where
  "setValueAtPath lset target targetPath v =
     (case targetPath of
        JStr text \<Rightarrow> Inr (lset target (lodash_path text) v)
      | _ \<Rightarrow> Inl TypeError)"

text \<open>
  The writer that records its calls: the accumulator is the list of the
  \<open>_.set\<close> calls made so far, each with its lodash path and its value.
\<close>

definition recording_set ::
  "(string \<times> extracted) list \<Rightarrow> string \<Rightarrow> extracted \<Rightarrow> (string \<times> extracted) list" where
  "recording_set calls path v = calls @ [(path, v)]"

subsection \<open>transformSingleRule\<close>

text \<open>
  \<open>target.includes('[*]')\<close>: a substring test on a string, a membership test
  on an array, a \<open>TypeError\<close> on anything else.
\<close>

definition js_includes :: "jsval \<Rightarrow> string \<Rightarrow> error + bool" where
  "js_includes target pat =
     (case target of
        JStr text \<Rightarrow> Inr (index_of pat text \<noteq> None)
      | JArr items \<Rightarrow> Inr (JStr pat \<in> set items)
      | _ \<Rightarrow> Inl TypeError)"

text \<open>
  The \<open>_.reduce\<close> over the extracted items, each written at the target with
  its first \<open>[*]\<close> replaced by the item's index.
\<close>

fun reduce_items ::
  "('a \<Rightarrow> string \<Rightarrow> extracted \<Rightarrow> 'a) \<Rightarrow> string \<Rightarrow> 'a \<Rightarrow> (nat \<times> jsval) list \<Rightarrow> error + 'a" where
  "reduce_items lset target acc [] = Inr acc"
| "reduce_items lset target acc ((index, item) # rest) =
     (case setValueAtPath lset acc
             (JStr (replace_first ''[*]'' (''['' @ show_nat index @ '']'') target)) (Data item) of
        Inl e \<Rightarrow> Inl e
      | Inr acc' \<Rightarrow> reduce_items lset target acc' rest)"

text \<open>
  Destructuring \<open>{ source, target }\<close> throws on \<open>undefined\<close> and \<open>null\<close> and
  reads \<open>undefined\<close> for a field that is missing.  With an array extracted
  and a target that includes \<open>[*]\<close>, \<open>target.substring\<close> and
  \<open>target.replace\<close> are \<open>TypeError\<close>s on a target that is an array.
\<close>

definition transformSingleRule ::
  "('a \<Rightarrow> string \<Rightarrow> extracted \<Rightarrow> 'a) \<Rightarrow> (string \<Rightarrow> jsval list \<Rightarrow> jsval option)
     \<Rightarrow> jsval \<Rightarrow> jsval \<Rightarrow> 'a \<Rightarrow> error + 'a" where
  "transformSingleRule lset coerce sourceData rule accumulator =
     (if rule = Undefined \<or> rule = Null then Inl TypeError
      else
        let source = get_property rule ''source'';
            target = get_property rule ''target''
        in case extractValues coerce sourceData source of
             Inl e \<Rightarrow> Inl e
           | Inr extractedValue \<Rightarrow>
               (case extractedValue of
                  Data (JArr items) \<Rightarrow>
                    (case js_includes target ''[*]'' of
                       Inl e \<Rightarrow> Inl e
                     | Inr True \<Rightarrow>
                         (case target of
                            JStr text \<Rightarrow>
                              if items = []
                              then setValueAtPath lset accumulator
                                     (JStr (take (nat (js_indexOf ''[*]'' text)) text))
                                     (Data (JArr []))
                              else reduce_items lset text accumulator (enumerate 0 items)
                          | _ \<Rightarrow> Inl TypeError)
                     | Inr False \<Rightarrow> setValueAtPath lset accumulator target extractedValue)
                | _ \<Rightarrow> setValueAtPath lset accumulator target extractedValue))"


subsection \<open>transform and validateRules\<close>

fun reduce_rules ::
  "('a \<Rightarrow> string \<Rightarrow> extracted \<Rightarrow> 'a) \<Rightarrow> (string \<Rightarrow> jsval list \<Rightarrow> jsval option)
     \<Rightarrow> jsval \<Rightarrow> 'a \<Rightarrow> jsval list \<Rightarrow> error + 'a" where
  "reduce_rules lset coerce sourceData result [] = Inr result"
| "reduce_rules lset coerce sourceData result (rule # rules) =
     (case transformSingleRule lset coerce sourceData rule result of
        Inl e \<Rightarrow> Inl e
      | Inr result' \<Rightarrow> reduce_rules lset coerce sourceData result' rules)"

text \<open>\<open>transform\<close>; \<open>emptyObject\<close> is the initial accumulator \<open>{}\<close>.\<close>

definition transform ::
  "('a \<Rightarrow> string \<Rightarrow> extracted \<Rightarrow> 'a) \<Rightarrow> (string \<Rightarrow> jsval list \<Rightarrow> jsval option)
     \<Rightarrow> 'a \<Rightarrow> jsval \<Rightarrow> jsval \<Rightarrow> error + 'a" where
  "transform lset coerce emptyObject sourceData transformationRules =
     (if transformationRules = Undefined \<or> transformationRules = Null then Inl TypeError
      else case get_property transformationRules ''pathMappings'' of
             JArr pathMappings \<Rightarrow> reduce_rules lset coerce sourceData emptyObject pathMappings
           | _ \<Rightarrow> Inl (Error ''pathMappings must be an array''))"

definition lodash_isString :: "jsval \<Rightarrow> bool" where
  "lodash_isString v = (case v of JStr _ \<Rightarrow> True | _ \<Rightarrow> False)"

text \<open>
  \<open>_.every\<close> over the rules; \<open>rule.source\<close> throws on an entry that is
  \<open>undefined\<close> or \<open>null\<close>.
\<close>

fun every_rule :: "jsval list \<Rightarrow> error + bool" where
  "every_rule [] = Inr True"
| "every_rule (rule # rules) =
     (if rule = Undefined \<or> rule = Null then Inl TypeError
      else if lodash_isString (get_property rule ''source'')
              \<and> lodash_isString (get_property rule ''target'')
           then every_rule rules
           else Inr False)"

definition validateRules :: "jsval \<Rightarrow> error + bool" where
  "validateRules rules =
     (if \<not> lodash_isObject rules then Inr False
      else case get_property rules ''pathMappings'' of
             JArr pathMappings \<Rightarrow> every_rule pathMappings
           | _ \<Rightarrow> Inr False)"

section \<open>Properties of the automaton\<close>

text \<open>
  The loop is first related to the iteration of \<open>step_states\<close>: it returns
  the accepting states of the first iterate that has any (\<open>loop_found\<close>) and
  nothing when there is none (\<open>loop_not_found\<close>).  All states of a level have
  the same \<open>ruleIndex\<close>, so the result of \<open>process\<close> is \<open>run\<close> of the
  whole rule on the initial state (\<open>process_run\<close>), which gives the composition
  law \<open>process_append\<close> for a rule split in two.
\<close>

lemma process_loop_round:
  "process_loop rule sts =
     (if sts = [] then (0, [])
      else if has_accepting rule (step_states rule sts)
           then (1, map to_match (filter (isAcceptingState rule) (step_states rule sts)))
           else (Suc (fst (process_loop rule (step_states rule sts))),
                 snd (process_loop rule (step_states rule sts))))"
proof -
  have "filter (\<lambda>s. \<not> isAcceptingState rule s) xs = xs"
    if "filter (isAcceptingState rule) xs = []" for xs
    using that by (induction xs) (auto split: if_splits)
  then show ?thesis
    by (subst process_loop.simps)
       (auto simp: Let_def step_states_def has_accepting_def split: prod.splits)
qed

lemma step_states_Nil [simp]: "step_states rule [] = []"
  by (simp add: step_states_def)

lemma funpow_step_Nil [simp]: "(step_states rule ^^ k) [] = []"
  by (induction k) simp_all

lemma loop_found:
  assumes "\<forall>m<k. \<not> has_accepting rule ((step_states rule ^^ Suc m) sts)"
    and "has_accepting rule ((step_states rule ^^ Suc k) sts)"
  shows "process_loop rule sts =
           (Suc k, map to_match (filter (isAcceptingState rule) ((step_states rule ^^ Suc k) sts)))"
  using assms
proof (induction k arbitrary: sts)
  case 0
  then have acc: "has_accepting rule (step_states rule sts)" by simp
  then have "sts \<noteq> []" by (auto simp: has_accepting_def)
  with acc show ?case by (subst process_loop_round) simp
next
  case (Suc k)
  let ?next = "step_states rule sts"
  have shift: "(step_states rule ^^ Suc m) ?next = (step_states rule ^^ Suc (Suc m)) sts" for m
    by (simp add: funpow_swap1)
  have nacc: "\<not> has_accepting rule ?next" using Suc.prems(1) by auto
  have ne: "sts \<noteq> []"
  proof
    assume "sts = []"
    then have "(step_states rule ^^ Suc (Suc k)) sts = []" by (simp del: funpow.simps)
    with Suc.prems(2) show False by (simp add: has_accepting_def del: funpow.simps)
  qed
  have "\<forall>m<k. \<not> has_accepting rule ((step_states rule ^^ Suc m) ?next)"
    using Suc.prems(1) unfolding shift by auto
  moreover have "has_accepting rule ((step_states rule ^^ Suc k) ?next)"
    using Suc.prems(2) unfolding shift .
  ultimately have "process_loop rule ?next =
      (Suc k, map to_match (filter (isAcceptingState rule) ((step_states rule ^^ Suc k) ?next)))"
    by (rule Suc.IH)
  then show ?case
    using ne nacc by (subst process_loop_round) (simp add: shift del: funpow.simps)
qed

lemma loop_not_found:
  "\<forall>k. \<not> has_accepting rule ((step_states rule ^^ Suc k) sts) \<Longrightarrow>
   snd (process_loop rule sts) = []"
proof (induction rule sts rule: process_loop.induct)
  case (1 rule sts)
  show ?case
  proof (cases "sts = []")
    case True
    then show ?thesis by (subst process_loop_round) simp
  next
    case False
    let ?next = "step_states rule sts"
    have nacc: "\<not> has_accepting rule ?next" using "1.prems" [rule_format, of 0] by simp
    then have f: "filter (isAcceptingState rule) (concat (map (transition rule) sts)) = []"
      by (simp add: has_accepting_def step_states_def)
    then have cont: "filter (\<lambda>s. \<not> isAcceptingState rule s) (concat (map (transition rule) sts)) = ?next"
      unfolding step_states_def by (induction "concat (map (transition rule) sts)") (auto simp: filter_empty_conv filter_id_conv)
    have "\<forall>k. \<not> has_accepting rule ((step_states rule ^^ Suc k) ?next)"
    proof
      fix k
      show "\<not> has_accepting rule ((step_states rule ^^ Suc k) ?next)"
        using "1.prems" [rule_format, of "Suc k"] by (simp add: funpow_swap1)
    qed
    then have "snd (process_loop rule ?next) = []"
      using "1.IH" [OF False refl refl refl] f cont by simp
    then show ?thesis using False nacc by (subst process_loop_round) simp
  qed
qed

lemma level_funpow: "level rule doc n = (step_states rule ^^ n) [initial_state doc]"
  by (induction n) simp_all

lemma transition_dispatch:
  "ruleIndex s < length rule \<Longrightarrow> transition rule s = dispatch (rule ! ruleIndex s) s"
  by (simp add: transition_def dispatch_def isAcceptingState_def)

lemma dispatch_index:
  "t \<in> set (dispatch seg s) \<Longrightarrow> ruleIndex t = Suc (ruleIndex s)"
  by (auto simp: dispatch_def handlePropertyTransition_def handleWildcardTransition_def
      handleIndexTransition_def split: segment.splits jsval.splits index_value.splits if_splits)

lemma step_uniform:
  assumes "\<forall>s\<in>set sts. ruleIndex s = i" and "i < length rule"
  shows "step_states rule sts = concat (map (dispatch (rule ! i)) sts)"
    and "\<forall>t\<in>set (step_states rule sts). ruleIndex t = Suc i"
proof -
  have "map (transition rule) sts = map (dispatch (rule ! i)) sts"
    using assms by (auto simp: transition_dispatch)
  then show a: "step_states rule sts = concat (map (dispatch (rule ! i)) sts)"
    by (simp only: step_states_def)
  show "\<forall>t\<in>set (step_states rule sts). ruleIndex t = Suc i"
    unfolding a using assms(1) by (auto dest: dispatch_index)
qed

lemma run_snoc: "run (segs @ [seg]) sts = concat (map (dispatch seg) (run segs sts))"
  by (simp add: run_def)

lemma run_append: "run (a @ b) sts = run b (run a sts)"
  by (simp add: run_def)

lemma run_Nil [simp]: "run [] sts = sts"
  by (simp add: run_def)

lemma run_Cons: "run (seg # segs) sts = run segs (concat (map (dispatch seg) sts))"
  by (simp add: run_def)

lemma funpow_uniform:
  assumes "\<forall>s\<in>set sts. ruleIndex s = i" and "i + k \<le> length rule"
  shows "(step_states rule ^^ k) sts = run (take k (drop i rule)) sts
         \<and> (\<forall>t\<in>set ((step_states rule ^^ k) sts). ruleIndex t = i + k)"
  using assms(2)
proof (induction k)
  case 0
  then show ?case using assms(1) by simp
next
  case (Suc k)
  then have IH: "(step_states rule ^^ k) sts = run (take k (drop i rule)) sts"
    and idx: "\<forall>t\<in>set ((step_states rule ^^ k) sts). ruleIndex t = i + k"
    by auto
  have lt: "i + k < length rule" using Suc.prems by simp
  have tk: "take (Suc k) (drop i rule) = take k (drop i rule) @ [rule ! (i + k)]"
    using lt by (simp add: take_Suc_conv_app_nth)
  have "(step_states rule ^^ Suc k) sts = step_states rule ((step_states rule ^^ k) sts)"
    by simp
  also have "\<dots> = concat (map (dispatch (rule ! (i + k))) ((step_states rule ^^ k) sts))"
    using step_uniform(1) [OF idx lt] .
  also have "\<dots> = run (take (Suc k) (drop i rule)) sts"
    unfolding tk run_snoc IH ..
  finally have a: "(step_states rule ^^ Suc k) sts = run (take (Suc k) (drop i rule)) sts" .
  have "\<forall>t\<in>set (step_states rule ((step_states rule ^^ k) sts)). ruleIndex t = Suc (i + k)"
    using step_uniform(2) [OF idx lt] .
  then show ?case using a by simp
qed

lemma accepting_iff: "isAcceptingState rule s \<longleftrightarrow> length rule \<le> ruleIndex s"
  by (simp add: isAcceptingState_def)

lemma loop_uniform_result:
  assumes uni: "\<forall>s\<in>set sts. ruleIndex s = i" and lt: "i < length rule"
  shows "snd (process_loop rule sts) = map to_match (run (drop i rule) sts)"
proof -
  define n where "n = length rule - i"
  obtain k where k: "n = Suc k" using lt by (cases n) (auto simp: n_def)
  let ?lv = "\<lambda>m. (step_states rule ^^ m) sts"
  have lv: "?lv m = run (take m (drop i rule)) sts" and ix: "\<forall>t\<in>set (?lv m). ruleIndex t = i + m"
    if "m \<le> n" for m
  proof -
    have "i + m \<le> length rule" using that lt by (simp add: n_def)
    from funpow_uniform [OF uni this]
    show "?lv m = run (take m (drop i rule)) sts" and "\<forall>t\<in>set (?lv m). ruleIndex t = i + m"
      by blast+
  qed
  have final: "?lv (Suc k) = run (drop i rule) sts"
    using lv [of "Suc k"] k by (simp add: n_def)
  have early: "\<not> has_accepting rule (?lv (Suc m))" if "m < k" for m
  proof -
    have "\<forall>t\<in>set (?lv (Suc m)). ruleIndex t = i + Suc m"
      using ix [of "Suc m"] that k by simp
    moreover have "i + Suc m < length rule" using that k by (simp add: n_def)
    ultimately show ?thesis
      by (auto simp: has_accepting_def filter_empty_conv accepting_iff simp del: funpow.simps)
  qed
  have allacc: "\<forall>t\<in>set (?lv (Suc k)). isAcceptingState rule t"
    using ix [of "Suc k"] k by (auto simp: accepting_iff n_def simp del: funpow.simps)
  show ?thesis
  proof (cases "?lv (Suc k) = []")
    case True
    have "\<not> has_accepting rule (?lv (Suc m))" for m
    proof (cases "m < k")
      case True
      then show ?thesis by (rule early)
    next
      case False
      then obtain d where "Suc m = d + Suc k" by (metis add.commute less_iff_Suc_add not_less_eq Suc_leI le_Suc_ex not_less)
      then have "?lv (Suc m) = (step_states rule ^^ d) (?lv (Suc k))"
        by (simp only: funpow_add o_apply)
      with True show ?thesis by (simp add: has_accepting_def del: funpow.simps)
    qed
    then have "snd (process_loop rule sts) = []" by (intro loop_not_found) blast
    with True final show ?thesis by simp
  next
    case False
    then have "has_accepting rule (?lv (Suc k))"
      using allacc by (auto simp: has_accepting_def filter_empty_conv simp del: funpow.simps) 
    with early have "process_loop rule sts =
        (Suc k, map to_match (filter (isAcceptingState rule) (?lv (Suc k))))"
      by (intro loop_found) blast+
    moreover have "filter (isAcceptingState rule) (?lv (Suc k)) = ?lv (Suc k)"
      using allacc by (simp only: filter_id_conv)
    ultimately show ?thesis using final by simp
  qed
qed

lemma loop_uniform_rounds:
  assumes "\<forall>s\<in>set sts. ruleIndex s = i" and "i < length rule"
  shows "fst (process_loop rule sts) \<le> length rule - i"
  using assms
proof (induction "length rule - i" arbitrary: sts i)
  case 0
  then show ?case by simp
next
  case (Suc n)
  let ?next = "step_states rule sts"
  have idx: "\<forall>t\<in>set ?next. ruleIndex t = Suc i"
    using step_uniform(2) [OF Suc.prems] .
  show ?case
  proof (cases "sts = [] \<or> has_accepting rule ?next \<or> ?next = []")
    case True
    then show ?thesis using Suc.hyps(2) 
      by (subst process_loop_round) (auto simp: process_loop_round [of rule "[]"])
  next
    case False
    then obtain t where "t \<in> set ?next" "\<not> isAcceptingState rule t"
      by (cases ?next) (auto simp: has_accepting_def split: if_splits)
    with idx have lt: "Suc i < length rule" by (auto simp: accepting_iff)
    have "n = length rule - Suc i" using Suc.hyps(2) by simp
    from Suc.hyps(1) [OF this idx lt]
    have "fst (process_loop rule ?next) \<le> length rule - Suc i" .
    then show ?thesis using False lt by (subst process_loop_round) simp
  qed
qed

lemma process_run: "process doc rule = map to_match (run rule [initial_state doc])"
proof (cases "rule = []")
  case True
  have acc: "isAcceptingState [] (initial_state doc)" by (simp add: isAcceptingState_def)
  then have st: "step_states [] [initial_state doc] = [initial_state doc]"
    by (simp add: step_states_def transition_accepting)
  have "process_loop [] [initial_state doc] = (1, [to_match (initial_state doc)])"
    using acc by (subst process_loop_round) (simp add: st has_accepting_def)
  with True show ?thesis by (simp add: process_def)
next
  case False
  then have "snd (process_loop rule [initial_state doc]) =
      map to_match (run (drop 0 rule) [initial_state doc])"
    by (intro loop_uniform_result) (simp_all add: initial_state_def)
  then show ?thesis by (simp add: process_def)
qed

lemma run_states_append: "run segs (x @ y) = run segs x @ run segs y"
  by (induction segs arbitrary: x y) (simp_all add: run_Cons)

lemma run_empty [simp]: "run segs [] = []"
  by (induction segs) (simp_all add: run_Cons)

lemma run_concat: "run segs (concat xss) = concat (map (run segs) xss)"
  by (induction xss) (simp_all add: run_states_append)

lemma run_singletons: "run segs sts = concat (map (\<lambda>s. run segs [s]) sts)"
proof (induction sts)
  case Nil
  then show ?case by simp
next
  case (Cons s sts)
  have "run segs (s # sts) = run segs [s] @ run segs sts"
    using run_states_append [of segs "[s]" sts] by simp
  with Cons show ?case by simp
qed

lemma dispatch_rebase: "dispatch seg (rebase i p s) = map (rebase i p) (dispatch seg s)"
  by (cases seg)
     (auto simp: dispatch_def rebase_def handlePropertyTransition_def
        handleWildcardTransition_def handleIndexTransition_def
        split: jsval.splits index_value.splits)

lemma run_rebase: "run segs (map (rebase i p) sts) = map (rebase i p) (run segs sts)"
proof (induction segs arbitrary: sts)
  case Nil
  then show ?case by simp
next
  case (Cons seg segs)
  have "concat (map (dispatch seg) (map (rebase i p) sts))
        = map (rebase i p) (concat (map (dispatch seg) sts))"
    by (simp add: map_concat comp_def dispatch_rebase)
  then show ?case by (simp add: run_Cons Cons.IH)
qed

lemma state_rebase:
  "s = rebase (ruleIndex s) (currentPath s) (initial_state (currentValue s))"
  by (simp add: rebase_def initial_state_def)

lemma to_match_rebase: "to_match (rebase i p s) = prepend p (to_match s)"
  by (simp add: to_match_def rebase_def prepend_def)

lemma run_from_state:
  "map to_match (run segs [s]) = map (prepend (currentPath s)) (process (currentValue s) segs)"
proof -
  have "run segs [s] = run segs (map (rebase (ruleIndex s) (currentPath s)) [initial_state (currentValue s)])"
    using state_rebase [of s] by simp
  also have "\<dots> = map (rebase (ruleIndex s) (currentPath s)) (run segs [initial_state (currentValue s)])"
    by (rule run_rebase)
  finally show ?thesis
    by (simp add: process_run to_match_rebase comp_def)
qed

lemma process_append:
  "process doc (p @ q) =
     concat (map (\<lambda>m. map (prepend (mpath m)) (process (mvalue m) q)) (process doc p))"
proof -
  have "process doc (p @ q) = map to_match (run q (run p [initial_state doc]))"
    by (simp add: process_run run_append)
  also have "\<dots> = map to_match (concat (map (\<lambda>s. run q [s]) (run p [initial_state doc])))"
    using run_singletons [of q "run p [initial_state doc]"] by simp
  also have "\<dots> = concat (map (\<lambda>s. map to_match (run q [s])) (run p [initial_state doc]))"
    by (simp add: map_concat comp_def)
  also have "\<dots> = concat (map (\<lambda>s. map (prepend (currentPath s)) (process (currentValue s) q))
                         (run p [initial_state doc]))"
    by (simp only: run_from_state)
  also have "\<dots> = concat (map (\<lambda>m. map (prepend (mpath m)) (process (mvalue m) q)) (process doc p))"
    by (simp add: process_run comp_def to_match_def)
  finally show ?thesis .
qed

lemma enumerate_nth: "enumerate 0 xs = map (\<lambda>i. (i, xs ! i)) [0..<length xs]"
  by (simp add: enumerate_eq_zip zip_eq_conv map_nth comp_def)

lemma process_Wildcard:
  "process (JArr xs) [Wildcard] =
     map (\<lambda>i. \<lparr>mvalue = xs ! i, mpath = [Idx (int i)]\<rparr>) [0..<length xs]"
  by (simp add: process_run run_Cons dispatch_def handleWildcardTransition_def
      initial_state_def to_match_def enumerate_nth comp_def)

lemma process_Nil: "process doc [] = [\<lparr>mvalue = doc, mpath = []\<rparr>]"
  by (simp add: process_run to_match_def initial_state_def)

lemma process_single_segment:
  assumes "seg \<noteq> Wildcard"
  shows "process v [seg] = [] \<or> (\<exists>w. process v [seg] = [\<lparr>mvalue = w, mpath = segment_keys [seg]\<rparr>])"
  using assms
  by (cases seg)
     (auto simp: process_run run_Cons dispatch_def handlePropertyTransition_def
        handleIndexTransition_def initial_state_def to_match_def segment_keys_def
        split: jsval.splits index_value.splits)

lemma segment_keys_append: "segment_keys (a @ b) = segment_keys a @ segment_keys b"
  by (simp add: segment_keys_def)

lemma process_wildcard_free:
  assumes "Wildcard \<notin> set segs"
  shows "process v segs = [] \<or> (\<exists>w. process v segs = [\<lparr>mvalue = w, mpath = segment_keys segs\<rparr>])"
  using assms
proof (induction segs arbitrary: v rule: rev_induct)
  case Nil
  then show ?case by (simp add: process_Nil segment_keys_def)
next
  case (snoc seg segs)
  then have sw: "seg \<noteq> Wildcard" and fw: "Wildcard \<notin> set segs" by auto
  from snoc.IH [OF fw, of v] show ?case
  proof
    assume "process v segs = []"
    then show ?thesis by (simp add: process_append)
  next
    assume "\<exists>w. process v segs = [\<lparr>mvalue = w, mpath = segment_keys segs\<rparr>]"
    then obtain w where w: "process v segs = [\<lparr>mvalue = w, mpath = segment_keys segs\<rparr>]" ..
    from process_single_segment [OF sw, of w] show ?thesis
      by (auto simp: process_append w prepend_def segment_keys_append)
  qed
qed

lemma process_wildcard_free_hd:
  assumes "Wildcard \<notin> set segs" and "process v segs \<noteq> []"
  shows "process v segs = [\<lparr>mvalue = mvalue (hd (process v segs)), mpath = segment_keys segs\<rparr>]"
  using process_wildcard_free [OF assms(1), of v] assms(2) by auto

lemmas parse_eval = parseJsonPath_def strip_root_def parse_char_def push_current_def js_isNaN_def
  js_parseInt_def str_non_decimal_def str_unsigned_decimal_def exponent_part_opt_def strip_sign_def
  is_white_space_def is_hex_digit_def hex_val_def is_digit_def nat_of_digits_def digit_val_def

section \<open>The claims about the match engine\<close>

lemma prepend_prepend: "prepend a (prepend b m) = prepend (a @ b) m"
  by (simp add: prepend_def)

lemma process_through_wildcard:
  assumes "process doc pre = [\<lparr>mvalue = JArr xs, mpath = lp\<rparr>]"
  shows "process doc (pre @ Wildcard # post) =
     concat (map (\<lambda>i. map (prepend (lp @ [Idx (int i)])) (process (xs ! i) post)) [0..<length xs])"
proof -
  have "process (JArr xs) ([Wildcard] @ post) =
          concat (map (\<lambda>i. map (prepend [Idx (int i)]) (process (xs ! i) post)) [0..<length xs])"
    by (simp only: process_append process_Wildcard) (simp add: comp_def)
  moreover have "process doc (pre @ ([Wildcard] @ post)) =
      map (prepend lp) (process (JArr xs) ([Wildcard] @ post))"
    by (simp only: process_append [of doc pre] assms) simp
  ultimately show ?thesis
    by (simp add: map_concat comp_def prepend_prepend)
qed

lemmas process_eval =
  process_run run_def dispatch_def handlePropertyTransition_def handleWildcardTransition_def
  handleIndexTransition_def initial_state_def to_match_def lodash_isObject_def lodash_isArray_def
  lodash_has_def get_property_def segment_keys_def array_index_def is_digit_def

lemmas level_eval =
  step_states_def transition_def isAcceptingState_def has_accepting_def
  handlePropertyTransition_def handleWildcardTransition_def handleIndexTransition_def
  initial_state_def to_match_def lodash_isObject_def lodash_has_def get_property_def

text \<open>
  Claim C1.  \<open>process\<close> returns the accepting states, as matches and in
  the order they were generated, of the first breadth-first level that holds an
  accepting state, and it runs as many rounds as it takes to reach that level
  (one round for level 0): no later level is visited.  When no level holds an
  accepting state, the result is empty.
\<close>

theorem process_first_accepting_level:
  "((\<forall>m<n. \<not> has_accepting rule (level rule doc m)) \<and> has_accepting rule (level rule doc n)
      \<longrightarrow> process doc rule = map to_match (filter (isAcceptingState rule) (level rule doc n))
          \<and> process_rounds doc rule = max 1 n)
   \<and> ((\<forall>n. \<not> has_accepting rule (level rule doc n)) \<longrightarrow> process doc rule = [])"
proof (intro conjI impI)
  assume h: "(\<forall>m<n. \<not> has_accepting rule (level rule doc m)) \<and> has_accepting rule (level rule doc n)"
  have "process_loop rule [initial_state doc] =
          (max 1 n, map to_match (filter (isAcceptingState rule) (level rule doc n)))"
  proof (cases n)
    case 0
    with h have acc: "isAcceptingState rule (initial_state doc)"
      by (simp add: has_accepting_def split: if_splits)
    then have st: "step_states rule [initial_state doc] = [initial_state doc]"
      by (simp add: step_states_def transition_accepting)
    show ?thesis using acc 0
      by (subst process_loop_round) (simp add: st has_accepting_def)
  next
    case (Suc k)
    have "\<forall>m<k. \<not> has_accepting rule ((step_states rule ^^ Suc m) [initial_state doc])"
      using h Suc by (auto simp: level_funpow simp del: funpow.simps)
    moreover have "has_accepting rule ((step_states rule ^^ Suc k) [initial_state doc])"
      using h Suc by (simp add: level_funpow del: funpow.simps)
    ultimately show ?thesis
      using loop_found [of k rule "[initial_state doc]"] Suc
      by (simp add: level_funpow del: funpow.simps)
  qed
  then show "process doc rule = map to_match (filter (isAcceptingState rule) (level rule doc n))"
    and "process_rounds doc rule = max 1 n"
    by (simp_all add: process_def process_rounds_def)
next
  assume h: "\<forall>n. \<not> has_accepting rule (level rule doc n)"
  have "\<forall>k. \<not> has_accepting rule ((step_states rule ^^ Suc k) [initial_state doc])"
    using h by (simp add: level_funpow del: funpow.simps)
  then show "process doc rule = []"
    unfolding process_def by (rule loop_not_found)
qed

text \<open>
  Both cases at concrete inputs: accepting states at level 2 for \<open>$.a[*]\<close>
  on \<open>{a: ["x", "y"]}\<close>, and no accepting state ever for \<open>$.a\<close> on
  \<open>null\<close>.
\<close>

theorem process_first_accepting_level_witness:
  "process (JObj [(''a'', JArr [JStr ''x'', JStr ''y''])]) [Property ''a'', Wildcard]
     = [\<lparr>mvalue = JStr ''x'', mpath = [Key ''a'', Idx 0]\<rparr>,
        \<lparr>mvalue = JStr ''y'', mpath = [Key ''a'', Idx 1]\<rparr>]
   \<and> process_rounds (JObj [(''a'', JArr [JStr ''x'', JStr ''y''])]) [Property ''a'', Wildcard] = 2
   \<and> process Null [Property ''a''] = []"
proof -
  let ?doc = "JObj [(''a'', JArr [JStr ''x'', JStr ''y''])]"
  let ?rule = "[Property ''a'', Wildcard]"
  have l0: "level ?rule ?doc 0 = [\<lparr>ruleIndex = 0, currentValue = ?doc, currentPath = []\<rparr>]"
    by (simp add: initial_state_def)
  have l1: "level ?rule ?doc (Suc 0) =
      [\<lparr>ruleIndex = 1, currentValue = JArr [JStr ''x'', JStr ''y''], currentPath = [Key ''a'']\<rparr>]"
    by (simp add: level_eval)
  have l2: "level ?rule ?doc (Suc (Suc 0)) =
      [\<lparr>ruleIndex = 2, currentValue = JStr ''x'', currentPath = [Key ''a'', Idx 0]\<rparr>,
       \<lparr>ruleIndex = 2, currentValue = JStr ''y'', currentPath = [Key ''a'', Idx 1]\<rparr>]"
    unfolding level.simps(2) [of _ _ "Suc 0"] l1 by (simp add: level_eval)
  have early: "\<forall>m<Suc (Suc 0). \<not> has_accepting ?rule (level ?rule ?doc m)"
    using l0 l1 by (auto simp: less_Suc_eq has_accepting_def isAcceptingState_def)
  have found: "has_accepting ?rule (level ?rule ?doc (Suc (Suc 0)))"
    unfolding l2 by (simp add: has_accepting_def isAcceptingState_def)
  have dead: "level [Property ''a''] Null (Suc n) = []" for n
  proof (induction n)
    case 0
    show ?case by (simp add: level_eval)
  next
    case (Suc n)
    have "level [Property ''a''] Null (Suc (Suc n)) =
        step_states [Property ''a''] (level [Property ''a''] Null (Suc n))"
      by (rule level.simps(2))
    then show ?case by (simp only: Suc.IH step_states_Nil)
  qed
  have never: "\<forall>n. \<not> has_accepting [Property ''a''] (level [Property ''a''] Null n)"
  proof
    fix n show "\<not> has_accepting [Property ''a''] (level [Property ''a''] Null n)"
      by (cases n)
         (simp_all add: dead has_accepting_def isAcceptingState_def initial_state_def
            del: level.simps(2))
  qed
  from process_first_accepting_level [of "Suc (Suc 0)" ?rule ?doc] early found
  have "process ?doc ?rule = map to_match (filter (isAcceptingState ?rule) (level ?rule ?doc (Suc (Suc 0))))"
    and "process_rounds ?doc ?rule = max 1 (Suc (Suc 0))"
    by blast+
  moreover from process_first_accepting_level [of 0 "[Property ''a'']" Null] never
  have "process Null [Property ''a''] = []" by blast
  ultimately show ?thesis
    unfolding l2 by (simp add: isAcceptingState_def to_match_def)
qed

text \<open>
  Claim C2.  For a path with one wildcard between chains \<open>pre\<close> and
  \<open>post\<close> of property and index segments: when \<open>pre\<close> leads to an array
  \<open>xs\<close> and \<open>post\<close> succeeds under every element, \<open>process\<close> returns
  one match per element, in element order; the locations differ at the wildcard
  position only, where they are \<open>0, ..., length xs - 1\<close>.
\<close>

theorem one_wildcard_matches:
  assumes "Wildcard \<notin> set pre" and "Wildcard \<notin> set post"
    and "map mvalue (process doc pre) = [JArr xs]"
    and "\<forall>i<length xs. process (xs ! i) post \<noteq> []"
  shows "process doc (pre @ Wildcard # post) =
           map (\<lambda>i. \<lparr>mvalue = mvalue (hd (process (xs ! i) post)),
                     mpath = segment_keys pre @ Idx (int i) # segment_keys post\<rparr>)
               [0..<length xs]
         \<and> length (process doc (pre @ Wildcard # post)) = length xs"
proof -
  have ne: "process doc pre \<noteq> []" using assms(3) by auto
  have pre: "process doc pre = [\<lparr>mvalue = JArr xs, mpath = segment_keys pre\<rparr>]"
    using process_wildcard_free_hd [OF assms(1) ne] assms(3) by (cases "process doc pre") auto
  have inner: "map (prepend (segment_keys pre @ [Idx (int i)])) (process (xs ! i) post) =
      [\<lparr>mvalue = mvalue (hd (process (xs ! i) post)),
        mpath = segment_keys pre @ Idx (int i) # segment_keys post\<rparr>]"
    if "i < length xs" for i
  proof -
    have "process (xs ! i) post \<noteq> []" using assms(4) that by simp
    from process_wildcard_free_hd [OF assms(2) this]
    obtain w where w: "process (xs ! i) post = [\<lparr>mvalue = w, mpath = segment_keys post\<rparr>]" by blast
    show ?thesis by (simp add: w prepend_def)
  qed
  have "process doc (pre @ Wildcard # post) =
     concat (map (\<lambda>i. map (prepend (segment_keys pre @ [Idx (int i)])) (process (xs ! i) post)) [0..<length xs])"
    by (rule process_through_wildcard [OF pre])
  also have "\<dots> = concat (map (\<lambda>i. [\<lparr>mvalue = mvalue (hd (process (xs ! i) post)),
        mpath = segment_keys pre @ Idx (int i) # segment_keys post\<rparr>]) [0..<length xs])"
    using inner by (intro arg_cong [where f = concat] map_cong) auto
  also have "\<dots> = map (\<lambda>i. \<lparr>mvalue = mvalue (hd (process (xs ! i) post)),
        mpath = segment_keys pre @ Idx (int i) # segment_keys post\<rparr>) [0..<length xs]"
    by (induction "[0..<length xs]") (simp_all add: concat_map_singleton)
  finally show ?thesis by simp
qed

text \<open>
  At a concrete input: \<open>$.a[*].c\<close> on \<open>{a: [{c: "x"}, {c: "y"}]}\<close>.
\<close>

theorem one_wildcard_matches_witness:
  "process (JObj [(''a'', JArr [JObj [(''c'', JStr ''x'')], JObj [(''c'', JStr ''y'')]])])
           ([Property ''a''] @ Wildcard # [Property ''c''])
   = [\<lparr>mvalue = JStr ''x'', mpath = [Key ''a'', Idx 0, Key ''c'']\<rparr>,
      \<lparr>mvalue = JStr ''y'', mpath = [Key ''a'', Idx 1, Key ''c'']\<rparr>]"
proof -
  let ?xs = "[JObj [(''c'', JStr ''x'')], JObj [(''c'', JStr ''y'')]]"
  let ?doc = "JObj [(''a'', JArr ?xs)]"
  have h1: "Wildcard \<notin> set [Property ''a'']" and h2: "Wildcard \<notin> set [Property ''c'']"
    by simp_all
  have h3: "map mvalue (process ?doc [Property ''a'']) = [JArr ?xs]"
    by (simp add: process_eval)
  have h4: "\<forall>i<length ?xs. process (?xs ! i) [Property ''c''] \<noteq> []"
    by (auto simp: process_eval less_Suc_eq)
  have v: "mvalue (hd (process (?xs ! 0) [Property ''c''])) = JStr ''x''"
    "mvalue (hd (process (?xs ! 1) [Property ''c''])) = JStr ''y''"
    by (simp_all add: process_eval)
  show ?thesis
    using one_wildcard_matches [OF h1 h2 h3 h4] v
    by (simp add: segment_keys_def upt_rec_numeral)
qed

text \<open>
  Claim C3.  For a path with two wildcards: when the outer one applies to an
  array \<open>xs\<close>, every element of \<open>xs\<close> leads to an array \<open>ys i\<close> of length
  \<open>k2\<close> at the inner one, and the last chain succeeds everywhere,
  \<open>process\<close> returns \<open>length xs * k2\<close> matches, outer element by outer
  element and, within each, inner element by inner element.
\<close>

theorem two_wildcards_matches:
  assumes "Wildcard \<notin> set p" and "Wildcard \<notin> set q" and "Wildcard \<notin> set r"
    and "map mvalue (process doc p) = [JArr xs]"
    and "\<forall>i<length xs. map mvalue (process (xs ! i) q) = [JArr (ys i)] \<and> length (ys i) = k2"
    and "\<forall>i<length xs. \<forall>j<k2. process (ys i ! j) r \<noteq> []"
  shows "process doc (p @ Wildcard # q @ Wildcard # r) =
           concat (map (\<lambda>i. map (\<lambda>j. \<lparr>mvalue = mvalue (hd (process (ys i ! j) r)),
                                      mpath = segment_keys p @ Idx (int i) # segment_keys q
                                              @ Idx (int j) # segment_keys r\<rparr>)
                               [0..<k2])
                       [0..<length xs])
         \<and> length (process doc (p @ Wildcard # q @ Wildcard # r)) = length xs * k2"
proof -
  let ?row = "\<lambda>i. map (\<lambda>j. \<lparr>mvalue = mvalue (hd (process (ys i ! j) r)),
                              mpath = segment_keys p @ Idx (int i) # segment_keys q
                                      @ Idx (int j) # segment_keys r\<rparr>) [0..<k2]"
  have ne: "process doc p \<noteq> []" using assms(4) by auto
  have outer: "process doc p = [\<lparr>mvalue = JArr xs, mpath = segment_keys p\<rparr>]"
    using process_wildcard_free_hd [OF assms(1) ne] assms(4) by (cases "process doc p") auto
  have row: "map (prepend (segment_keys p @ [Idx (int i)])) (process (xs ! i) (q @ Wildcard # r))
             = ?row i" if i: "i < length xs" for i
  proof -
    have mv: "map mvalue (process (xs ! i) q) = [JArr (ys i)]" and len: "length (ys i) = k2"
      using assms(5) i by auto
    then have "process (xs ! i) q \<noteq> []" by auto
    from process_wildcard_free_hd [OF assms(2) this] mv
    have mid: "process (xs ! i) q = [\<lparr>mvalue = JArr (ys i), mpath = segment_keys q\<rparr>]"
      by (cases "process (xs ! i) q") auto
    have cell: "map (prepend (segment_keys q @ [Idx (int j)])) (process (ys i ! j) r) =
        [\<lparr>mvalue = mvalue (hd (process (ys i ! j) r)),
          mpath = segment_keys q @ Idx (int j) # segment_keys r\<rparr>]" if "j < k2" for j
    proof -
      have "process (ys i ! j) r \<noteq> []" using assms(6) i that by simp
      from process_wildcard_free_hd [OF assms(3) this]
      obtain w where w: "process (ys i ! j) r = [\<lparr>mvalue = w, mpath = segment_keys r\<rparr>]" by blast
      show ?thesis by (simp add: w prepend_def)
    qed
    have "process (xs ! i) (q @ Wildcard # r) =
        concat (map (\<lambda>j. map (prepend (segment_keys q @ [Idx (int j)])) (process (ys i ! j) r))
                    [0..<k2])"
      using process_through_wildcard [OF mid, of r] len by simp
    also have "\<dots> = concat (map (\<lambda>j. [\<lparr>mvalue = mvalue (hd (process (ys i ! j) r)),
          mpath = segment_keys q @ Idx (int j) # segment_keys r\<rparr>]) [0..<k2])"
      using cell by (intro arg_cong [where f = concat] map_cong) auto
    also have "\<dots> = map (\<lambda>j. \<lparr>mvalue = mvalue (hd (process (ys i ! j) r)),
          mpath = segment_keys q @ Idx (int j) # segment_keys r\<rparr>) [0..<k2]"
      by (induction "[0..<k2]") (simp_all add: concat_map_singleton)
    finally show ?thesis by (simp add: prepend_def comp_def)
  qed
  have "process doc (p @ Wildcard # q @ Wildcard # r) =
      concat (map (\<lambda>i. map (prepend (segment_keys p @ [Idx (int i)]))
                          (process (xs ! i) (q @ Wildcard # r))) [0..<length xs])"
    by (rule process_through_wildcard [OF outer])
  also have "\<dots> = concat (map ?row [0..<length xs])"
    using row by (intro arg_cong [where f = concat] map_cong) auto
  finally have eq: "process doc (p @ Wildcard # q @ Wildcard # r) = concat (map ?row [0..<length xs])" .
  have "length (concat (map ?row [0..<length xs])) = length xs * k2"
    by (simp add: length_concat comp_def sum_list_triv)
  with eq show ?thesis by simp
qed

text \<open>
  At a concrete input: \<open>$.categories[*].items[*].name\<close> on two categories of
  two items each.
\<close>

theorem two_wildcards_matches_witness:
  "process
     (JObj [(''categories'',
        JArr [JObj [(''items'', JArr [JObj [(''name'', JStr ''item1'')], JObj [(''name'', JStr ''item2'')]])],
              JObj [(''items'', JArr [JObj [(''name'', JStr ''item3'')], JObj [(''name'', JStr ''item4'')]])]])])
     ([Property ''categories''] @ Wildcard # [Property ''items''] @ Wildcard # [Property ''name''])
   = [\<lparr>mvalue = JStr ''item1'', mpath = [Key ''categories'', Idx 0, Key ''items'', Idx 0, Key ''name'']\<rparr>,
      \<lparr>mvalue = JStr ''item2'', mpath = [Key ''categories'', Idx 0, Key ''items'', Idx 1, Key ''name'']\<rparr>,
      \<lparr>mvalue = JStr ''item3'', mpath = [Key ''categories'', Idx 1, Key ''items'', Idx 0, Key ''name'']\<rparr>,
      \<lparr>mvalue = JStr ''item4'', mpath = [Key ''categories'', Idx 1, Key ''items'', Idx 1, Key ''name'']\<rparr>]"
proof -
  let ?a = "[JObj [(''name'', JStr ''item1'')], JObj [(''name'', JStr ''item2'')]]"
  let ?b = "[JObj [(''name'', JStr ''item3'')], JObj [(''name'', JStr ''item4'')]]"
  let ?xs = "[JObj [(''items'', JArr ?a)], JObj [(''items'', JArr ?b)]]"
  let ?doc = "JObj [(''categories'', JArr ?xs)]"
  let ?ys = "\<lambda>i::nat. if i = 0 then ?a else ?b"
  have h1: "Wildcard \<notin> set [Property ''categories'']"
    and h2: "Wildcard \<notin> set [Property ''items'']"
    and h3: "Wildcard \<notin> set [Property ''name'']"
    by simp_all
  have h4: "map mvalue (process ?doc [Property ''categories'']) = [JArr ?xs]"
    by (simp add: process_eval)
  have h5: "\<forall>i<length ?xs. map mvalue (process (?xs ! i) [Property ''items'']) = [JArr (?ys i)]
              \<and> length (?ys i) = Suc (Suc 0)"
    by (auto simp: process_eval less_Suc_eq)
  have h6: "\<forall>i<length ?xs. \<forall>j<Suc (Suc 0). process (?ys i ! j) [Property ''name''] \<noteq> []"
    by (auto simp: process_eval less_Suc_eq)
  have v: "mvalue (hd (process (?a ! 0) [Property ''name''])) = JStr ''item1''"
    "mvalue (hd (process (?a ! 1) [Property ''name''])) = JStr ''item2''"
    "mvalue (hd (process (?b ! 0) [Property ''name''])) = JStr ''item3''"
    "mvalue (hd (process (?b ! 1) [Property ''name''])) = JStr ''item4''"
    by (simp_all add: process_eval)
  show ?thesis
    using two_wildcards_matches [OF h1 h2 h3 h4 h5 h6] v
    by (simp add: segment_keys_def upt_rec_numeral)
qed

text \<open>
  Claim C9, as amended.  \<open>process\<close> is total: \<open>process_loop\<close> is a
  terminating function, by the measure \<open>frontier_measure\<close>.  The number of
  rounds is at most the number of segments, or one when there is no segment.
  Every transition from a state that is not accepting advances \<open>ruleIndex\<close>
  by exactly one, and a round that generates accepting states returns them and
  ends the loop.
\<close>

theorem process_rounds_bound:
  "process_rounds doc rule \<le> max 1 (length rule)
   \<and> (\<forall>s s'. \<not> isAcceptingState rule s \<and> s' \<in> set (transition rule s)
               \<longrightarrow> ruleIndex s' = Suc (ruleIndex s))
   \<and> (\<forall>states. states \<noteq> [] \<and> has_accepting rule (step_states rule states)
               \<longrightarrow> process_loop rule states =
                     (1, map to_match (filter (isAcceptingState rule) (step_states rule states))))"
proof (intro conjI allI impI)
  show "process_rounds doc rule \<le> max 1 (length rule)"
  proof (cases "rule = []")
    case True
    have acc: "isAcceptingState [] (initial_state doc)" by (simp add: isAcceptingState_def)
    then have st: "step_states [] [initial_state doc] = [initial_state doc]"
      by (simp add: step_states_def transition_accepting)
    have "process_loop [] [initial_state doc] = (1, [to_match (initial_state doc)])"
      using acc by (subst process_loop_round) (simp add: st has_accepting_def)
    with True show ?thesis by (simp add: process_rounds_def)
  next
    case False
    then have "fst (process_loop rule [initial_state doc]) \<le> length rule - 0"
      by (intro loop_uniform_rounds) (simp_all add: initial_state_def)
    then show ?thesis by (simp add: process_rounds_def)
  qed
next
  fix s s'
  assume "\<not> isAcceptingState rule s \<and> s' \<in> set (transition rule s)"
  then show "ruleIndex s' = Suc (ruleIndex s)"
    using transition_advances [of s' rule s] by simp
next
  fix states
  assume "states \<noteq> [] \<and> has_accepting rule (step_states rule states)"
  then show "process_loop rule states =
      (1, map to_match (filter (isAcceptingState rule) (step_states rule states)))"
    by (subst process_loop_round) simp
qed

text \<open>
  The three parts at a concrete input: \<open>$.a\<close> on \<open>{a: "x"}\<close> takes at most
  one round, its one transition moves \<open>ruleIndex\<close> from 0 to 1, and the round
  returns the accepting state it generates.
\<close>

theorem process_rounds_bound_witness:
  "process_rounds (JObj [(''a'', JStr ''x'')]) [Property ''a''] \<le> 1
   \<and> ruleIndex \<lparr>ruleIndex = 1, currentValue = JStr ''x'', currentPath = [Key ''a'']\<rparr>
       = Suc (ruleIndex (initial_state (JObj [(''a'', JStr ''x'')])))
   \<and> process_loop [Property ''a''] [initial_state (JObj [(''a'', JStr ''x'')])]
       = (1, [\<lparr>mvalue = JStr ''x'', mpath = [Key ''a'']\<rparr>])"
proof -
  let ?doc = "JObj [(''a'', JStr ''x'')]"
  let ?s' = "\<lparr>ruleIndex = 1, currentValue = JStr ''x'', currentPath = [Key ''a'']\<rparr>"
  have pre: "\<not> isAcceptingState [Property ''a''] (initial_state ?doc)
             \<and> ?s' \<in> set (transition [Property ''a''] (initial_state ?doc))"
    by (simp add: isAcceptingState_def initial_state_def transition_def
        handlePropertyTransition_def lodash_isObject_def lodash_has_def get_property_def)
  have next_states: "step_states [Property ''a''] [initial_state ?doc] = [?s']"
    by (simp add: step_states_def isAcceptingState_def initial_state_def transition_def
        handlePropertyTransition_def lodash_isObject_def lodash_has_def get_property_def)
  have acc: "[initial_state ?doc] \<noteq> []
             \<and> has_accepting [Property ''a''] (step_states [Property ''a''] [initial_state ?doc])"
    unfolding next_states by (simp add: has_accepting_def isAcceptingState_def)
  from process_rounds_bound [of ?doc "[Property ''a'']"]
  have rounds: "process_rounds ?doc [Property ''a''] \<le> max 1 (length [Property ''a''])"
    and adv: "\<forall>s s'. \<not> isAcceptingState [Property ''a''] s
                     \<and> s' \<in> set (transition [Property ''a''] s)
                     \<longrightarrow> ruleIndex s' = Suc (ruleIndex s)"
    and ret: "\<forall>states. states \<noteq> []
                     \<and> has_accepting [Property ''a''] (step_states [Property ''a''] states)
                     \<longrightarrow> process_loop [Property ''a''] states =
                           (1, map to_match (filter (isAcceptingState [Property ''a''])
                                               (step_states [Property ''a''] states)))"
    by blast+
  from adv pre have "ruleIndex ?s' = Suc (ruleIndex (initial_state ?doc))" by blast
  moreover from ret acc have "process_loop [Property ''a''] [initial_state ?doc] =
      (1, map to_match (filter (isAcceptingState [Property ''a''])
                          (step_states [Property ''a''] [initial_state ?doc])))"
    by blast
  then have "process_loop [Property ''a''] [initial_state ?doc]
      = (1, [\<lparr>mvalue = JStr ''x'', mpath = [Key ''a'']\<rparr>])"
    unfolding next_states by (simp add: isAcceptingState_def to_match_def)
  ultimately show ?thesis using rounds by simp
qed

text \<open>
  Claim C9 as stated fails for the empty segment sequence: the loop body runs
  once, which is more than the number of segments.
\<close>

theorem process_rounds_counterexample:
  "\<not> process_rounds Null [] \<le> length ([] :: segment list)"
  by (simp add: process_rounds_def process_loop.simps transition_def isAcceptingState_def
      initial_state_def)

text \<open>
  Claim C10.  The path \<open>$\<close> parses to the empty segment sequence, and
  \<open>process\<close> then returns one match: the whole document, at the empty
  location.
\<close>

theorem root_path_matches_document:
  "process jsonData (parseJsonPath ''$'') = [\<lparr>mvalue = jsonData, mpath = []\<rparr>]"
  by (simp add: parse_eval process_Nil)

section \<open>The claim about the parser\<close>

lemma strip_root_bracket: "strip_root (p @ CHR ''['' # body) = strip_root p @ CHR ''['' # body"
  by (auto simp: strip_root_def split: list.splits)

lemma fold_parse_inside:
  assumes "CHR ''['' \<notin> set body" and "CHR '']'' \<notin> set body"
  shows "fold parse_char body \<lparr>segments = segs, current = cur, inBracket = True\<rparr>
         = \<lparr>segments = segs, current = cur @ body, inBracket = True\<rparr>"
  using assms by (induction body arbitrary: cur) (auto simp: parse_char_def)

text \<open>
  Claim C6, as amended.  \<open>parseJsonPath\<close> reports no error.  A path that ends
  in an unterminated bracket group parses like the path before the bracket,
  followed by the text after the bracket as one property segment, dots included;
  an empty group adds nothing.
\<close>

theorem unterminated_bracket_is_not_reported:
  assumes "CHR ''['' \<notin> set body" and "CHR '']'' \<notin> set body"
  shows "parseJsonPath (p @ CHR ''['' # body)
         = parseJsonPath p @ (if body = [] then [] else [Property body])"
proof -
  define st where "st = fold parse_char (strip_root p) \<lparr>segments = [], current = [], inBracket = False\<rparr>"
  have "fold parse_char (strip_root (p @ CHR ''['' # body)) \<lparr>segments = [], current = [], inBracket = False\<rparr>
        = fold parse_char body (parse_char CHR ''['' st)"
    by (simp add: strip_root_bracket st_def)
  also have "parse_char CHR ''['' st = \<lparr>segments = push_current st, current = [], inBracket = True\<rparr>"
    by (simp add: parse_char_def)
  also have "fold parse_char body \<dots> = \<lparr>segments = push_current st, current = body, inBracket = True\<rparr>"
    using fold_parse_inside [OF assms, of "push_current st" "[]"] by simp
  finally show ?thesis
    by (simp add: parseJsonPath_def st_def [symmetric] push_current_def)
qed

text \<open>
  At a concrete input: \<open>$.store.book[0.title\<close>, where the text after the
  bracket becomes the property \<open>0.title\<close>.
\<close>

theorem unterminated_bracket_is_not_reported_witness:
  "parseJsonPath (''$.store.book'' @ CHR ''['' # ''0.title'')
   = [Property ''store'', Property ''book'', Property ''0.title'']"
proof -
  have "CHR ''['' \<notin> set ''0.title''" and "CHR '']'' \<notin> set ''0.title''" by simp_all
  from unterminated_bracket_is_not_reported [OF this, of "''$.store.book''"]
  show ?thesis by (simp add: parse_eval)
qed

text \<open>
  Claim C6 as stated fails: \<open>$.a[0\<close> is parsed, the group becoming the
  property \<open>0\<close>, and the empty group of \<open>$.a[\<close> is dropped.
\<close>

theorem unterminated_bracket_counterexample:
  "parseJsonPath ''$.a[0'' = [Property ''a'', Property ''0'']
   \<and> parseJsonPath ''$.a['' = [Property ''a'']"
  by (simp add: parse_eval)

section \<open>The claims about the transformer\<close>

lemma show_nat_small: "n < 10 \<Longrightarrow> show_nat n = [digit_char n]"
  by (simp add: show_nat.simps)

lemmas transformer_eval =
  transformSingleRule_def extractValues_def parsePathWithOperation_def is_word_char_def
  aggregate_member_def aggregateOps_def inherited_member_def aggregate_names_def
  own_key_def lookup_accessor_def
  setValueAtPath_def lodash_path_def js_includes_def
  recording_set_def replace_first_def js_indexOf_def show_nat_small digit_char_def transform_def
  validateRules_def lodash_isString_def


text \<open>
  Claim C8.  On the empty list \<open>sum\<close> and \<open>count\<close> are 0, and \<open>max\<close>,
  \<open>min\<close>, \<open>first\<close> and \<open>last\<close> return \<open>undefined\<close>; none of them
  throws.
\<close>

theorem aggregates_on_empty_list:
  "map_option (\<lambda>reducer. reducer []) (aggregateOps coerce ''sum'') = Some (Inr (JNum 0))
   \<and> map_option (\<lambda>reducer. reducer []) (aggregateOps coerce ''count'') = Some (Inr (JNum 0))
   \<and> map_option (\<lambda>reducer. reducer []) (aggregateOps coerce ''max'') = Some (Inr Undefined)
   \<and> map_option (\<lambda>reducer. reducer []) (aggregateOps coerce ''min'') = Some (Inr Undefined)
   \<and> map_option (\<lambda>reducer. reducer []) (aggregateOps coerce ''first'') = Some (Inr Undefined)
   \<and> map_option (\<lambda>reducer. reducer []) (aggregateOps coerce ''last'') = Some (Inr Undefined)"
  by (simp add: aggregateOps_def lodash_sum_def lodash_max_def lodash_min_def lodash_first_def
      lodash_last_def)

text \<open>
  Claim C4 fails on the code for an array of one element.  With the source
  \<open>{a: {b: [{c: 5}]}}\<close> and the rule \<open>$.a.b[*].c\<close> to \<open>$.x[*].c\<close>,
  \<open>extractValues\<close> returns the number 5 and not a list, so the wildcard of
  the target is not expanded and the one call of \<open>_.set\<close> has the path
  \<open>x.*.c\<close>, where the claim has \<open>x.0.c\<close>.  With two elements the calls are
  those of the claim.
\<close>

theorem single_element_wildcard_write:
  "transformSingleRule recording_set coerce
     (JObj [(''a'', JObj [(''b'', JArr [JObj [(''c'', JNum 5)]])])])
     (JObj [(''source'', JStr ''$.a.b[*].c''), (''target'', JStr ''$.x[*].c'')]) []
   = Inr [(''x.*.c'', Data (JNum 5))]
   \<and> transformSingleRule recording_set coerce
     (JObj [(''a'', JObj [(''b'', JArr [JObj [(''c'', JNum 5)], JObj [(''c'', JNum 6)]])])])
     (JObj [(''source'', JStr ''$.a.b[*].c''), (''target'', JStr ''$.x[*].c'')]) []
   = Inr [(''x.0.c'', Data (JNum 5)), (''x.1.c'', Data (JNum 6))]"
  by (simp add: transformer_eval process_eval parse_eval)





















end
